theory Spec2Isabelle
  imports Complex_Main "HOL-Library.Sublist"
begin

section \<open>Data model of the document-retrieval extension\<close>

text \<open>
  The theory embeds \<^verbatim>\<open>bioimageio_chatbot/chatbot_extensions/docs_extension.py\<close>.

  A manifest collection is a Python dict with the keys \<^verbatim>\<open>id\<close>, \<^verbatim>\<open>name\<close>, \<^verbatim>\<open>description\<close> and
  \<^verbatim>\<open>base_url\<close>; the first three are read with \<^verbatim>\<open>collection[...]\<close>, the last with
  \<^verbatim>\<open>.get("base_url")\<close>, which yields \<^verbatim>\<open>None\<close> when the key is absent.
\<close>

record collection =
  coll_id :: string
  name :: string
  description :: string
  coll_base_url :: "string option"

text \<open>
  A document of the vector store exposes \<^verbatim>\<open>page_content\<close> and \<^verbatim>\<open>metadata\<close>; the
  metadata mapping is opaque to the extension and stays a type parameter.
\<close>

record 'm Document =
  page_content :: string
  doc_metadata :: 'm

text \<open>
  A Python float, as far as its comparisons go: a number or NaN. The numbers are real
  numbers here (on the floats that are not NaN, infinities included, \<^verbatim>\<open><\<close> is a linear
  order, which embeds into the reals). Every comparison with NaN is false.
\<close>

datatype pyfloat = Num real | NaN

fun py_lt :: "pyfloat \<Rightarrow> pyfloat \<Rightarrow> bool" where
  "py_lt (Num a) (Num b) = (a < b)"
| "py_lt (Num a) NaN = False"
| "py_lt NaN b = False"

fun py_ge :: "pyfloat \<Rightarrow> pyfloat \<Rightarrow> bool" where
  "py_ge (Num a) (Num b) = (b \<le> a)"
| "py_ge (Num a) NaN = False"
| "py_ge NaN b = False"

text \<open>The number of a float that is not NaN.\<close>

fun num :: "pyfloat \<Rightarrow> real" where
  "num (Num a) = a"
| "num NaN = 0"

text \<open>\<^verbatim>\<open>class DocWithScore(BaseModel)\<close>.\<close>

record 'm DocWithScore =
  doc :: string
  score :: pyfloat
  metadata :: 'm
  base_url :: "string option"

text \<open>\<^verbatim>\<open>class DocumentRetrievalInput(BaseModel)\<close>: the request, mutated in place by the search.\<close>

record DocumentRetrievalInput =
  query :: string
  top_k :: int

text \<open>
  The exceptions the code can raise: a channel id missing from the manifest
  (\<^verbatim>\<open>collection_info_dict[channel_id]\<close>), an index out of range in the report that is
  printed, and whatever a store's search call raises.
\<close>

datatype error = KeyError string | IndexError | UpstreamSearchError string

text \<open>
  A store is the collaborator behind
  \<^verbatim>\<open>asimilarity_search_with_relevance_scores(query, k=...)\<close>: awaited, it either raises
  or returns a list of (document, score) pairs.
\<close>

type_synonym 'm docs_store = "string \<Rightarrow> int \<Rightarrow> error + ('m Document \<times> pyfloat) list"

text \<open>
  The coroutine object that line 55 appends to \<^verbatim>\<open>channel_results\<close>: the store together
  with the arguments bound at the call. Nothing of the store runs until it is awaited.
\<close>

record 'm coroutine =
  co_channel :: string
  co_store :: "'m docs_store"
  co_query :: string
  co_k :: int

text \<open>What one search that was run looked like from outside: channel, query and k.\<close>

record search_call =
  call_channel :: string
  call_query :: string
  call_k :: int

text \<open>
  What a call of \<^verbatim>\<open>run_extension\<close> leaves behind: the caller's request object as it is
  afterwards, the searches that were run, and the value returned or the exception raised.
\<close>

record 'm run_result =
  req_after :: DocumentRetrievalInput
  searched :: "search_call list"
  outcome :: "error + 'm DocWithScore list"

text \<open>
  The class object \<^verbatim>\<open>DocumentRetrievalInput\<close> itself, as far as \<^verbatim>\<open>get_schema\<close> and the
  \<^verbatim>\<open>schema()\<close> it calls touch it: the docstring, and the cache in which pydantic keeps
  the schema it has generated for the class (\<^verbatim>\<open>__schema_cache__\<close>, one entry, since
  \<^verbatim>\<open>schema()\<close> is always called with its default arguments). Both are shared by every
  user of the class.
\<close>

record 's model_class =
  docstring :: string
  schema_cache :: "'s option"


section \<open>The schema advertiser\<close>

text \<open>\<^verbatim>\<open>f"- {channel['name']}: {channel['description']}"\<close>\<close>

definition channel_line :: "collection \<Rightarrow> string" where
  "channel_line channel = ''- '' @ name channel @ '': '' @ description channel"

text \<open>\<^verbatim>\<open>sep.join(parts)\<close> on strings.\<close>

fun join :: "string \<Rightarrow> string list \<Rightarrow> string" where
  "join sep [] = []"
| "join sep [p] = p"
| "join sep (p # q # ps) = p @ sep @ join sep (q # ps)"

definition channel_info :: "collection list \<Rightarrow> string" where
  "channel_info channels = join [CHR 0x0A] (map channel_line channels)"

definition doc_header :: string where
  "doc_header =
     ''Searching knowledge base for relevant documents. The available documentations are:''
     @ [CHR 0x0A]"

text \<open>
  \<^verbatim>\<open>BaseModel.schema()\<close> of pydantic 1.x, the version whose interface the repository
  uses (\<^verbatim>\<open>.schema()\<close>, \<^verbatim>\<open>@validator\<close>):
  \<^verbatim>\<open>
  cached = cls.__schema_cache__.get((by_alias, ref_template))
  if cached is not None:
      return cached
  s = model_schema(cls, by_alias=by_alias, ref_template=ref_template)
  cls.__schema_cache__[(by_alias, ref_template)] = s
  return s
  \<close>
  The generator \<^verbatim>\<open>model_schema\<close> reads the fields of the class, which never change, and
  its docstring, from which it takes the description of the schema. It is the parameter
  \<open>model_schema\<close>, a function of the docstring.
\<close>

definition schema :: "(string \<Rightarrow> 's) \<Rightarrow> 's model_class \<Rightarrow> 's model_class \<times> 's" where
  "schema model_schema cls =
     (case schema_cache cls of
        Some cached \<Rightarrow> (cls, cached)
      | None \<Rightarrow>
          (let s = model_schema (docstring cls)
           in (cls\<lparr>schema_cache := Some s\<rparr>, s)))"

text \<open>
  \<^verbatim>\<open>get_schema(channels)\<close> assigns the class docstring and then returns
  \<^verbatim>\<open>DocumentRetrievalInput.schema()\<close>.
\<close>

definition get_schema ::
  "(string \<Rightarrow> 's) \<Rightarrow> collection list \<Rightarrow> 's model_class \<Rightarrow> 's model_class \<times> 's" where
  "get_schema model_schema channels cls =
     schema model_schema (cls\<lparr>docstring := doc_header @ channel_info channels\<rparr>)"

section \<open>The search\<close>

text \<open>
  \<^verbatim>\<open>{collection["id"]: collection for collection in collections}\<close>: a later entry with
  the same id replaces an earlier one.
\<close>

definition collection_info_dict :: "collection list \<Rightarrow> string \<Rightarrow> collection option" where
  "collection_info_dict collections = map_of (rev (map (\<lambda>c. (coll_id c, c)) collections))"

text \<open>
  The loop of lines 49 to 57. \<^verbatim>\<open>docs_store_dict\<close> is a dict, given here as the list of its
  items in iteration order (\<^verbatim>\<open>for channel_id in d: docs_store = d[channel_id]\<close> visits
  exactly the items). The accumulators are the two local variables the loop writes:
  \<^verbatim>\<open>channel_results\<close> and \<^verbatim>\<open>base_url\<close>. The latter is unbound before the first iteration
  (\<open>None\<close> stands for that too: it is read only when a store returned a document, hence
  after an iteration). The \<^verbatim>\<open>print\<close> of line 54 writes the channel id and the query to
  standard output; it cannot raise and is left out.
\<close>

fun issue_calls ::
  "collection list \<Rightarrow> (string \<times> 'm docs_store) list \<Rightarrow> DocumentRetrievalInput \<Rightarrow>
   'm coroutine list \<Rightarrow> string option \<Rightarrow> error + ('m coroutine list \<times> string option)" where
  "issue_calls collections [] req channel_results bu = Inr (channel_results, bu)"
| "issue_calls collections ((channel_id, docs_store) # rest) req channel_results bu =
     (case collection_info_dict collections channel_id of
        None \<Rightarrow> Inl (KeyError channel_id)
      | Some collection_info \<Rightarrow>
          issue_calls collections rest req
            (channel_results @
               [\<lparr>co_channel = channel_id, co_store = docs_store,
                 co_query = query req, co_k = top_k req\<rparr>])
            (coll_base_url collection_info))"

definition await_call :: "'m coroutine \<Rightarrow> error + ('m Document \<times> pyfloat) list" where
  "await_call c = co_store c (co_query c) (co_k c)"

definition call_of :: "'m coroutine \<Rightarrow> search_call" where
  "call_of c = \<lparr>call_channel = co_channel c, call_query = co_query c, call_k = co_k c\<rparr>"

text \<open>
  \<^verbatim>\<open>await asyncio.gather(*channel_results)\<close>. All awaitables run; when every one returns,
  the value is the list of their results in the order they were passed; otherwise the
  exception that is raised first in time reaches the caller. Time is not part of the
  source, so the order in which the calls finish is the parameter \<open>finish_order\<close>, a
  list of positions; calls it does not mention finish afterwards, in the order they
  were passed.
\<close>

fun first_raised :: "(error + 'a) list \<Rightarrow> error option" where
  "first_raised [] = None"
| "first_raised (Inl e # rs) = Some e"
| "first_raised (Inr v # rs) = first_raised rs"

fun returned :: "(error + 'a) list \<Rightarrow> 'a list" where
  "returned [] = []"
| "returned (Inl e # rs) = returned rs"
| "returned (Inr v # rs) = v # returned rs"

definition gather :: "nat list \<Rightarrow> (error + 'a) list \<Rightarrow> error + 'a list" where
  "gather finish_order outcomes =
     (case first_raised
             (map (\<lambda>i. outcomes ! i) (filter (\<lambda>i. i < length outcomes) finish_order)
              @ outcomes) of
        Some e \<Rightarrow> Inl e
      | None \<Rightarrow> Inr (returned outcomes))"

text \<open>
  The comprehension of lines 62 to 68. \<^verbatim>\<open>base_url\<close> is the function's local variable, read
  after the loop has ended.
\<close>

definition docs_with_score ::
  "string option \<Rightarrow> ('m Document \<times> pyfloat) list list \<Rightarrow> 'm DocWithScore list" where
  "docs_with_score bu channel_results =
     concat (map (\<lambda>results_with_scores.
                    map (\<lambda>(d, s). \<lparr>doc = page_content d, score = s,
                                   metadata = doc_metadata d, base_url = bu\<rparr>)
                        results_with_scores)
                 channel_results)"

text \<open>
  \<^verbatim>\<open>sorted(xs, key=f, reverse=True)\<close> is CPython's list sort. It compares keys with \<^verbatim>\<open><\<close>
  only. What follows is the sort as \<^verbatim>\<open>listobject.c\<close> runs it on fewer than 64 elements:
  \<^verbatim>\<open>count_run\<close> finds the run the list starts with (ascending, or strictly descending
  and then reversed in place), and \<^verbatim>\<open>binarysort\<close> inserts the remaining elements one by
  one at the place a binary search finds. Longer lists are cut into such runs, which are
  then merged; the merges are not followed here. When no key is NaN the result of any
  stable sort is the same list, so the length does not matter then.
\<close>

fun run_ascending :: "('a \<Rightarrow> pyfloat) \<Rightarrow> 'a \<Rightarrow> 'a list \<Rightarrow> nat" where
  "run_ascending f prev [] = 0"
| "run_ascending f prev (x # xs) =
     (if py_lt (f x) (f prev) then 0 else Suc (run_ascending f x xs))"

fun run_descending :: "('a \<Rightarrow> pyfloat) \<Rightarrow> 'a \<Rightarrow> 'a list \<Rightarrow> nat" where
  "run_descending f prev [] = 0"
| "run_descending f prev (x # xs) =
     (if py_lt (f x) (f prev) then Suc (run_descending f x xs) else 0)"

text \<open>The length of the initial run, and whether it is a descending one.\<close>

fun count_run :: "('a \<Rightarrow> pyfloat) \<Rightarrow> 'a list \<Rightarrow> nat \<times> bool" where
  "count_run f [] = (0, False)"
| "count_run f [x] = (1, False)"
| "count_run f (x # y # ys) =
     (if py_lt (f y) (f x) then (2 + run_descending f y ys, True)
      else (2 + run_ascending f y ys, False))"

text \<open>
  The binary search of \<^verbatim>\<open>binarysort\<close>: the place of \<open>pivot\<close> among the elements
  \<open>a[l:r]\<close>, to the right of everything it is not less than.
\<close>

function bisect :: "('a \<Rightarrow> pyfloat) \<Rightarrow> 'a \<Rightarrow> 'a list \<Rightarrow> nat \<Rightarrow> nat \<Rightarrow> nat" where
  "bisect f pivot a l r =
     (if l < r
      then (let p = l + (r - l) div 2 in
            if py_lt (f pivot) (f (a ! p)) then bisect f pivot a l p
            else bisect f pivot a (p + 1) r)
      else l)"
  by pat_completeness auto
termination
  by (relation "measure (\<lambda>(f, pivot, a, l, r). r - l)") auto

declare bisect.simps [simp del]

fun binarysort :: "('a \<Rightarrow> pyfloat) \<Rightarrow> 'a list \<Rightarrow> 'a list \<Rightarrow> 'a list" where
  "binarysort f a [] = a"
| "binarysort f a (pivot # rest) =
     (let l = bisect f pivot a 0 (length a)
      in binarysort f (take l a @ pivot # drop l a) rest)"

definition list_sort :: "('a \<Rightarrow> pyfloat) \<Rightarrow> 'a list \<Rightarrow> 'a list" where
  "list_sort f xs =
     (if length xs < 2 then xs
      else (case count_run f xs of
              (n, descending) \<Rightarrow>
                binarysort f (if descending then rev (take n xs) else take n xs)
                  (drop n xs)))"

text \<open>
  With \<^verbatim>\<open>reverse=True\<close> the list is reversed, sorted in ascending order and reversed
  again, so that elements of equal key keep their original order.
\<close>

definition sorted_reverse :: "('a \<Rightarrow> pyfloat) \<Rightarrow> 'a list \<Rightarrow> 'a list" where
  "sorted_reverse f xs = rev (list_sort f (rev xs))"

text \<open>The slice \<^verbatim>\<open>xs[:k]\<close>; a negative \<open>k\<close> counts from the end.\<close>

definition slice_to :: "int \<Rightarrow> 'a list \<Rightarrow> 'a list" where
  "slice_to k xs = (if 0 \<le> k then take (nat k) xs else take (length xs - nat (- k)) xs)"

text \<open>Line 70: the ranking.\<close>

definition ranked ::
  "string option \<Rightarrow> ('m Document \<times> pyfloat) list list \<Rightarrow> int \<Rightarrow> 'm DocWithScore list" where
  "ranked bu channel_results k =
     slice_to k (sorted_reverse score (docs_with_score bu channel_results))"

text \<open>\<^verbatim>\<open>xs[i]\<close> for a non-negative index.\<close>

definition getitem :: "'a list \<Rightarrow> nat \<Rightarrow> error + 'a" where
  "getitem xs i = (if i < length xs then Inr (xs ! i) else Inl IndexError)"

text \<open>
  The \<^verbatim>\<open>print\<close> of lines 73 to 75 formats the entries 0, 1 and 2 of the ranking, in this
  order. The text goes to standard output and is not kept here; what is kept is whether
  building it raises.
\<close>

definition report :: "'m DocWithScore list \<Rightarrow> error + unit" where
  "report ds =
     (case getitem ds 0 of Inl e \<Rightarrow> Inl e | Inr d0 \<Rightarrow>
       (case getitem ds 1 of Inl e \<Rightarrow> Inl e | Inr d1 \<Rightarrow>
         (case getitem ds 2 of Inl e \<Rightarrow> Inl e | Inr d2 \<Rightarrow> Inr ())))"

text \<open>
  Lines 62 to 76: once the stores have answered, rank, print the report when the ranking
  is not empty, and return the ranking.
\<close>

definition rank_and_report ::
  "string option \<Rightarrow> ('m Document \<times> pyfloat) list list \<Rightarrow> int \<Rightarrow> error + 'm DocWithScore list" where
  "rank_and_report bu channel_results k =
     (let ds = ranked bu channel_results k in
      if length ds > 0
      then (case report ds of Inl e \<Rightarrow> Inl e | Inr u \<Rightarrow> Inr ds)
      else Inr ds)"

text \<open>
  \<^verbatim>\<open>run_extension(docs_store_dict, req)\<close>. \<open>collections\<close> is the value of
  \<^verbatim>\<open>get_manifest()["collections"]\<close>, a function of another module.
\<close>

definition run_extension ::
  "collection list \<Rightarrow> (string \<times> 'm docs_store) list \<Rightarrow> nat list \<Rightarrow>
   DocumentRetrievalInput \<Rightarrow> 'm run_result" where
  "run_extension collections docs_store_dict finish_order req0 =
     (let req = req0\<lparr>top_k := max 1 (min (top_k req0) 15)\<rparr> in
      case issue_calls collections docs_store_dict req [] None of
        Inl e \<Rightarrow> \<lparr>req_after = req, searched = [], outcome = Inl e\<rparr>
      | Inr (channel_results, bu) \<Rightarrow>
          (case gather finish_order (map await_call channel_results) of
             Inl e \<Rightarrow>
               \<lparr>req_after = req, searched = map call_of channel_results, outcome = Inl e\<rparr>
           | Inr results \<Rightarrow>
               \<lparr>req_after = req, searched = map call_of channel_results,
                 outcome = rank_and_report bu results (top_k req)\<rparr>))"

section \<open>A registry of two collections\<close>

text \<open>
  Concrete collections, documents and stores on which the definitions are run. A store
  returns at most \<open>k\<close> of its documents, best first.
\<close>

definition coll_A :: collection where
  "coll_A = \<lparr>coll_id = ''A'', name = ''Collection A'', description = ''Documentation of A'',
             coll_base_url = Some ''https://a.example/docs''\<rparr>"

definition coll_B :: collection where
  "coll_B = \<lparr>coll_id = ''B'', name = ''Collection B'', description = ''Documentation of B'',
             coll_base_url = Some ''https://b.example/docs''\<rparr>"

definition d1 :: "(string \<times> string) list Document" where
  "d1 = \<lparr>page_content = ''d1'', doc_metadata = [(''source'', ''d1.md'')]\<rparr>"

definition d2 :: "(string \<times> string) list Document" where
  "d2 = \<lparr>page_content = ''d2'', doc_metadata = [(''source'', ''d2.md'')]\<rparr>"

definition d3 :: "(string \<times> string) list Document" where
  "d3 = \<lparr>page_content = ''d3'', doc_metadata = [(''source'', ''d3.md'')]\<rparr>"

definition store_A :: "(string \<times> string) list docs_store" where
  "store_A q k = Inr (take (nat k) [(d1, Num 0.9), (d2, Num 0.5)])"

definition store_B :: "(string \<times> string) list docs_store" where
  "store_B q k = Inr (take (nat k) [(d3, Num 0.8)])"

definition store_one :: "(string \<times> string) list docs_store" where
  "store_one q k = Inr (take (nat k) [(d1, Num 0.9)])"

text \<open>A store that returns a document whose score is NaN, and one with two low scores.\<close>

definition d4 :: "(string \<times> string) list Document" where
  "d4 = \<lparr>page_content = ''d4'', doc_metadata = [(''source'', ''d4.md'')]\<rparr>"

definition store_nan :: "(string \<times> string) list docs_store" where
  "store_nan q k = Inr (take (nat k) [(d1, Num 0.2), (d2, NaN)])"

definition store_low :: "(string \<times> string) list docs_store" where
  "store_low q k = Inr (take (nat k) [(d3, Num 0.3), (d4, Num 0.1)])"

definition store_down :: "(string \<times> string) list docs_store" where
  "store_down q k = Inl (UpstreamSearchError ''connection refused'')"

section \<open>The sort on keys that are not NaN\<close>

text \<open>
  On floats that are not NaN the comparisons are those of the numbers.
\<close>

lemma py_lt_num: "a \<noteq> NaN \<Longrightarrow> b \<noteq> NaN \<Longrightarrow> py_lt a b = (num a < num b)"
  by (cases a; cases b) simp_all

lemma py_ge_num: "a \<noteq> NaN \<Longrightarrow> b \<noteq> NaN \<Longrightarrow> py_ge a b = (num b \<le> num a)"
  by (cases a; cases b) simp_all

text \<open>
  The binary search stays within its bounds, so the sort rearranges its input and
  nothing else, whatever the keys.
\<close>

lemma bisect_bounds: "l \<le> r \<Longrightarrow> l \<le> bisect f pivot a l r \<and> bisect f pivot a l r \<le> r"
proof (induction f pivot a l r rule: bisect.induct)
  case (1 f pivot a l r)
  show ?case
  proof (cases "l < r")
    case False
    with "1.prems" show ?thesis by (simp add: bisect.simps)
  next
    case True
    let ?p = "l + (r - l) div 2"
    from True have p: "l \<le> ?p" "?p < r" by auto
    show ?thesis
    proof (cases "py_lt (f pivot) (f (a ! ?p))")
      case lt: True
      have eq: "bisect f pivot a l r = bisect f pivot a l ?p"
        by (subst bisect.simps) (simp add: Let_def True lt)
      from "1.IH"(1) [OF True refl lt] p have
        "l \<le> bisect f pivot a l ?p \<and> bisect f pivot a l ?p \<le> ?p" by simp
      with p show ?thesis unfolding eq by linarith
    next
      case ge: False
      have eq: "bisect f pivot a l r = bisect f pivot a (?p + 1) r"
        by (subst bisect.simps) (simp add: Let_def True ge)
      from "1.IH"(2) [OF True refl ge] p have
        "?p + 1 \<le> bisect f pivot a (?p + 1) r \<and> bisect f pivot a (?p + 1) r \<le> r" by simp
      with p show ?thesis unfolding eq by linarith
    qed
  qed
qed

lemma length_binarysort: "length (binarysort f a rest) = length a + length rest"
proof (induction rest arbitrary: a)
  case Nil
  then show ?case by simp
next
  case (Cons pivot rest)
  have "bisect f pivot a 0 (length a) \<le> length a"
    using bisect_bounds [of 0 "length a" f pivot a] by simp
  then show ?case by (simp add: Let_def Cons.IH)
qed

lemma set_binarysort: "set (binarysort f a rest) = set a \<union> set rest"
proof (induction rest arbitrary: a)
  case Nil
  then show ?case by simp
next
  case (Cons pivot rest)
  have "set (take l a @ pivot # drop l a) = insert pivot (set a)" for l
  proof -
    have "set (take l a) \<union> set (drop l a) = set a"
      by (metis append_take_drop_id set_append)
    then show ?thesis by auto
  qed
  then show ?case by (simp add: Let_def Cons.IH)
qed

lemma count_run_le: "fst (count_run f xs) \<le> length xs"
proof -
  have a: "run_ascending f p ys \<le> length ys" for p ys
    by (induction ys arbitrary: p) auto
  have d: "run_descending f p ys \<le> length ys" for p ys
    by (induction ys arbitrary: p) auto
  show ?thesis
  proof (cases "(f, xs)" rule: count_run.cases)
    case (3 f' x y ys)
    with a [of y ys] d [of y ys] show ?thesis by auto
  qed auto
qed

lemma length_list_sort: "length (list_sort f xs) = length xs"
  using count_run_le [of f xs]
  by (auto simp: list_sort_def length_binarysort split: prod.splits)

lemma set_list_sort: "set (list_sort f xs) = set xs"
proof (cases "length xs < 2")
  case True
  then show ?thesis by (simp add: list_sort_def)
next
  case False
  obtain n d where c: "count_run f xs = (n, d)" by (cases "count_run f xs")
  have "set (take n xs) \<union> set (drop n xs) = set xs"
    by (metis append_take_drop_id set_append)
  with False c show ?thesis
    by (simp add: list_sort_def set_binarysort)
qed

text \<open>
  In a sorted list without NaN keys the binary search finds the place after the last
  element that is not greater than the pivot: inserting there keeps the list sorted and
  puts the pivot after the elements of equal key.
\<close>

lemma bisect_correct:
  assumes "\<forall>x \<in> set a. f x \<noteq> NaN" and "f pivot \<noteq> NaN"
    and "sorted (map (num \<circ> f) a)"
    and "l \<le> r" and "r \<le> length a"
    and "\<forall>j < l. num (f (a ! j)) \<le> num (f pivot)"
    and "\<forall>j. r \<le> j \<and> j < length a \<longrightarrow> num (f pivot) < num (f (a ! j))"
  shows "(\<forall>j < bisect f pivot a l r. num (f (a ! j)) \<le> num (f pivot))
         \<and> (\<forall>j. bisect f pivot a l r \<le> j \<and> j < length a \<longrightarrow> num (f pivot) < num (f (a ! j)))"
  using assms
proof (induction f pivot a l r rule: bisect.induct)
  case (1 f pivot a l r)
  show ?case
  proof (cases "l < r")
    case False
    with "1.prems" have "l = r" by simp
    with "1.prems" show ?thesis by (simp add: bisect.simps)
  next
    case True
    let ?p = "l + (r - l) div 2"
    from True "1.prems" have p: "l \<le> ?p" "?p < r" "?p < length a" by auto
    then have ap: "a ! ?p \<in> set a" by simp
    have mono: "i \<le> j \<Longrightarrow> j < length a \<Longrightarrow> num (f (a ! i)) \<le> num (f (a ! j))" for i j
      using "1.prems"(3) by (auto simp: sorted_iff_nth_mono)
    show ?thesis
    proof (cases "py_lt (f pivot) (f (a ! ?p))")
      case lt: True
      have eq: "bisect f pivot a l r = bisect f pivot a l ?p"
        by (subst bisect.simps) (simp add: Let_def True lt)
      from lt "1.prems"(1,2) ap have less: "num (f pivot) < num (f (a ! ?p))"
        by (simp add: py_lt_num)
      have upper: "\<forall>j. ?p \<le> j \<and> j < length a \<longrightarrow> num (f pivot) < num (f (a ! j))"
        using less mono by fastforce
      from "1.IH"(1) [OF True refl lt "1.prems"(1,2,3) p(1) _ "1.prems"(6) upper] p
      show ?thesis unfolding eq by simp
    next
      case ge: False
      have eq: "bisect f pivot a l r = bisect f pivot a (?p + 1) r"
        by (subst bisect.simps) (simp add: Let_def True ge)
      from ge "1.prems"(1,2) ap have le: "num (f (a ! ?p)) \<le> num (f pivot)"
        by (simp add: py_lt_num)
      have lower: "\<forall>j < ?p + 1. num (f (a ! j)) \<le> num (f pivot)"
      proof (intro allI impI)
        fix j assume "j < ?p + 1"
        then have "j \<le> ?p" by simp
        from mono [OF this p(3)] le show "num (f (a ! j)) \<le> num (f pivot)" by simp
      qed
      from "1.IH"(2) [OF True refl ge "1.prems"(1,2,3) _ "1.prems"(5) lower "1.prems"(7)] p
      show ?thesis unfolding eq by simp
    qed
  qed
qed

lemma insert_at_bisect:
  assumes "\<forall>x \<in> set a. f x \<noteq> NaN" and "f pivot \<noteq> NaN"
    and "sorted (map (num \<circ> f) a)"
  shows "sorted (map (num \<circ> f) (take (bisect f pivot a 0 (length a)) a @ pivot
                                  # drop (bisect f pivot a 0 (length a)) a))"
    and "filter (\<lambda>x. num (f x) = k) (take (bisect f pivot a 0 (length a)) a @ pivot
                                  # drop (bisect f pivot a 0 (length a)) a)
         = filter (\<lambda>x. num (f x) = k) (a @ [pivot])"
proof -
  let ?i = "bisect f pivot a 0 (length a)"
  from bisect_correct [OF assms, of 0 "length a"] have
    lo: "\<forall>j < ?i. num (f (a ! j)) \<le> num (f pivot)" and
    hi: "\<forall>j. ?i \<le> j \<and> j < length a \<longrightarrow> num (f pivot) < num (f (a ! j))"
    by simp_all
  have i: "?i \<le> length a" using bisect_bounds [of 0 "length a" f pivot a] by simp
  have before: "num (f x) \<le> num (f pivot)" if "x \<in> set (take ?i a)" for x
  proof -
    from that obtain j where "j < length (take ?i a)" "x = take ?i a ! j"
      by (auto simp: in_set_conv_nth)
    with lo show ?thesis by simp
  qed
  have after: "num (f pivot) < num (f x)" if "x \<in> set (drop ?i a)" for x
  proof -
    from that obtain j where j: "j < length (drop ?i a)" "x = drop ?i a ! j"
      by (auto simp: in_set_conv_nth)
    then have "x = a ! (?i + j)" "?i + j < length a" using i by auto
    with hi show ?thesis by simp
  qed
  have st: "sorted (map (num \<circ> f) (take ?i a))" "sorted (map (num \<circ> f) (drop ?i a))"
    using assms(3) by (simp_all add: sorted_wrt_take sorted_wrt_drop flip: take_map drop_map)
  have cross: "num (f x) \<le> num (f y)" if "x \<in> set (take ?i a)" "y \<in> set (drop ?i a)" for x y
    using before [OF that(1)] after [OF that(2)] by simp
  show "sorted (map (num \<circ> f) (take ?i a @ pivot # drop ?i a))"
    using st before after cross by (auto simp: sorted_append less_imp_le)
  have "num (f x) \<noteq> num (f pivot)" if "x \<in> set (drop ?i a)" for x
    using after [OF that] by simp
  then have none: "filter (\<lambda>x. num (f x) = num (f pivot)) (drop ?i a) = []"
    by (simp add: filter_empty_conv)
  have split: "filter (\<lambda>x. num (f x) = k) a
               = filter (\<lambda>x. num (f x) = k) (take ?i a) @ filter (\<lambda>x. num (f x) = k) (drop ?i a)"
    by (metis append_take_drop_id filter_append)
  show "filter (\<lambda>x. num (f x) = k) (take ?i a @ pivot # drop ?i a)
        = filter (\<lambda>x. num (f x) = k) (a @ [pivot])"
    using none by (cases "num (f pivot) = k") (simp_all add: split)
qed

lemma binarysort_correct:
  assumes "\<forall>x \<in> set (a @ rest). f x \<noteq> NaN" and "sorted (map (num \<circ> f) a)"
  shows "sorted (map (num \<circ> f) (binarysort f a rest))
         \<and> (\<forall>k. filter (\<lambda>x. num (f x) = k) (binarysort f a rest)
                  = filter (\<lambda>x. num (f x) = k) (a @ rest))"
  using assms
proof (induction rest arbitrary: a)
  case Nil
  then show ?case by simp
next
  case (Cons pivot rest)
  let ?i = "bisect f pivot a 0 (length a)"
  let ?a = "take ?i a @ pivot # drop ?i a"
  from Cons.prems have nn: "\<forall>x \<in> set a. f x \<noteq> NaN" "f pivot \<noteq> NaN" by simp_all
  note ins = insert_at_bisect [OF nn Cons.prems(2)]
  have "set ?a = insert pivot (set a)"
  proof -
    have "set (take ?i a) \<union> set (drop ?i a) = set a"
      by (metis append_take_drop_id set_append)
    then show ?thesis by auto
  qed
  with Cons.prems have "\<forall>x \<in> set (?a @ rest). f x \<noteq> NaN" by auto
  from Cons.IH [OF this ins(1)] have
    s: "sorted (map (num \<circ> f) (binarysort f ?a rest))" and
    e: "\<And>k. filter (\<lambda>x. num (f x) = k) (binarysort f ?a rest)
           = filter (\<lambda>x. num (f x) = k) (?a @ rest)"
    by blast+
  show ?case
  proof (intro conjI allI)
    show "sorted (map (num \<circ> f) (binarysort f a (pivot # rest)))"
      using s by (simp add: Let_def)
    show "filter (\<lambda>x. num (f x) = k) (binarysort f a (pivot # rest))
          = filter (\<lambda>x. num (f x) = k) (a @ pivot # rest)" for k
    proof -
      have "filter (\<lambda>x. num (f x) = k) (binarysort f a (pivot # rest))
            = filter (\<lambda>x. num (f x) = k) (binarysort f ?a rest)"
        by (simp add: Let_def)
      also have "\<dots> = filter (\<lambda>x. num (f x) = k) (?a @ rest)" by (rule e)
      also have "\<dots> = filter (\<lambda>x. num (f x) = k) ?a @ filter (\<lambda>x. num (f x) = k) rest"
        by (rule filter_append)
      also have "\<dots> = filter (\<lambda>x. num (f x) = k) (a @ [pivot])
                        @ filter (\<lambda>x. num (f x) = k) rest"
        by (simp only: ins(2))
      also have "\<dots> = filter (\<lambda>x. num (f x) = k) (a @ pivot # rest)" by simp
      finally show ?thesis .
    qed
  qed
qed

text \<open>
  The initial run, reversed when it is a descending one, is sorted; a strictly descending
  run has no two equal keys, so that reversing it moves no element past an equal one.
\<close>

lemma run_ascending_sorted:
  "\<forall>x \<in> set (prev # xs). f x \<noteq> NaN \<Longrightarrow>
   sorted (map (num \<circ> f) (prev # take (run_ascending f prev xs) xs))"
proof (induction xs arbitrary: prev)
  case Nil
  then show ?case by simp
next
  case (Cons x xs)
  show ?case
  proof (cases "py_lt (f x) (f prev)")
    case True
    then show ?thesis by simp
  next
    case False
    with Cons.prems have le: "num (f prev) \<le> num (f x)" by (simp add: py_lt_num)
    from Cons.prems have "\<forall>z \<in> set (x # xs). f z \<noteq> NaN" by simp
    from Cons.IH [OF this] le False show ?thesis by auto
  qed
qed

lemma run_descending_strict:
  "\<forall>x \<in> set (prev # xs). f x \<noteq> NaN \<Longrightarrow>
   sorted_wrt (\<lambda>a b. b < a) (map (num \<circ> f) (prev # take (run_descending f prev xs) xs))"
proof (induction xs arbitrary: prev)
  case Nil
  then show ?case by simp
next
  case (Cons x xs)
  show ?case
  proof (cases "py_lt (f x) (f prev)")
    case False
    then show ?thesis by simp
  next
    case True
    with Cons.prems have lt: "num (f x) < num (f prev)" by (simp add: py_lt_num)
    from Cons.prems have "\<forall>z \<in> set (x # xs). f z \<noteq> NaN" by simp
    from Cons.IH [OF this] lt True show ?thesis by auto
  qed
qed

lemma filter_key_rev:
  assumes "distinct (map g xs)"
  shows "filter (\<lambda>x. g x = k) (rev xs) = filter (\<lambda>x. g x = k) xs"
proof -
  from assms have "length (filter (\<lambda>x. g x = k) xs) \<le> 1"
  proof (induction xs)
    case Nil
    then show ?case by simp
  next
    case (Cons a xs)
    show ?case
    proof (cases "g a = k")
      case True
      with Cons.prems have "k \<notin> g ` set xs" by simp
      then have "\<forall>x \<in> set xs. g x \<noteq> k" by blast
      then have "filter (\<lambda>x. g x = k) xs = []" by (simp add: filter_empty_conv)
      with True show ?thesis by simp
    next
      case False
      with Cons show ?thesis by simp
    qed
  qed
  then have "rev (filter (\<lambda>x. g x = k) xs) = filter (\<lambda>x. g x = k) xs"
    by (cases "filter (\<lambda>x. g x = k) xs") auto
  then show ?thesis by (simp add: rev_filter)
qed

lemma count_run_correct:
  assumes "\<forall>x \<in> set xs. f x \<noteq> NaN" and "count_run f xs = (n, d)"
  shows "sorted (map (num \<circ> f) (if d then rev (take n xs) else take n xs))
         \<and> (\<forall>k. filter (\<lambda>x. num (f x) = k) (if d then rev (take n xs) else take n xs)
                  = filter (\<lambda>x. num (f x) = k) (take n xs))"
proof (cases "(f, xs)" rule: count_run.cases)
  case (1 f')
  with assms show ?thesis by simp
next
  case (2 f' x)
  with assms show ?thesis by auto
next
  case (3 f' x y ys)
  then have xs: "xs = x # y # ys" by simp
  from assms(1) xs have nn: "\<forall>z \<in> set (y # ys). f z \<noteq> NaN" "f x \<noteq> NaN" "f y \<noteq> NaN"
    by simp_all
  show ?thesis
  proof (cases "py_lt (f y) (f x)")
    case False
    with assms(2) xs have n: "n = 2 + run_ascending f y ys" and d: "\<not> d" by simp_all
    from False nn have "num (f x) \<le> num (f y)" by (simp add: py_lt_num)
    with run_ascending_sorted [OF nn(1)]
    have "sorted (map (num \<circ> f) (x # y # take (run_ascending f y ys) ys))" by auto
    with n d xs show ?thesis by simp
  next
    case True
    with assms(2) xs have n: "n = 2 + run_descending f y ys" and d: "d" by simp_all
    let ?run = "x # y # take (run_descending f y ys) ys"
    from True nn have "num (f y) < num (f x)" by (simp add: py_lt_num)
    with run_descending_strict [OF nn(1)]
    have "sorted_wrt (\<lambda>a b. b < a) (map (num \<circ> f) ?run)" by auto
    then have "sorted_wrt (<) (rev (map (num \<circ> f) ?run))"
      by (simp only: sorted_wrt_rev)
    then have sd: "sorted (rev (map (num \<circ> f) ?run))" "distinct (rev (map (num \<circ> f) ?run))"
      by (simp_all only: strict_sorted_iff)
    from sd(2) have "distinct (map (num \<circ> f) ?run)" by (simp only: distinct_rev)
    from filter_key_rev [OF this] have
      "filter (\<lambda>x. num (f x) = k) (rev ?run) = filter (\<lambda>x. num (f x) = k) ?run" for k
      by (simp add: comp_def)
    moreover from sd(1) have "sorted (map (num \<circ> f) (rev ?run))" by (simp only: rev_map)
    moreover have "take n xs = ?run" using n xs by simp
    ultimately show ?thesis using d by simp
  qed
qed

text \<open>Without NaN keys the sort is a stable sort.\<close>

lemma list_sort_correct:
  assumes "\<forall>x \<in> set xs. f x \<noteq> NaN"
  shows "sorted (map (num \<circ> f) (list_sort f xs))
         \<and> (\<forall>k. filter (\<lambda>x. num (f x) = k) (list_sort f xs) = filter (\<lambda>x. num (f x) = k) xs)"
proof (cases "length xs < 2")
  case True
  then have "xs = [] \<or> (\<exists>x. xs = [x])"
    by (cases xs) (auto simp: length_Suc_conv)
  then show ?thesis by (auto simp: list_sort_def)
next
  case False
  obtain n d where c: "count_run f xs = (n, d)" by (cases "count_run f xs")
  let ?run = "if d then rev (take n xs) else take n xs"
  from count_run_correct [OF assms c] have
    rs: "sorted (map (num \<circ> f) ?run)" and
    rf: "\<And>k. filter (\<lambda>x. num (f x) = k) ?run = filter (\<lambda>x. num (f x) = k) (take n xs)"
    by blast+
  have "set (take n xs) \<union> set (drop n xs) = set xs"
    by (metis append_take_drop_id set_append)
  moreover have "set ?run = set (take n xs)" by simp
  ultimately have "set ?run \<union> set (drop n xs) = set xs" by simp
  with assms have "\<forall>x \<in> set (?run @ drop n xs). f x \<noteq> NaN" by auto
  from binarysort_correct [OF this rs] have
    bs: "sorted (map (num \<circ> f) (binarysort f ?run (drop n xs)))" and
    bf: "\<And>k. filter (\<lambda>x. num (f x) = k) (binarysort f ?run (drop n xs))
            = filter (\<lambda>x. num (f x) = k) (?run @ drop n xs)"
    by blast+
  have ls: "list_sort f xs = binarysort f ?run (drop n xs)"
    using False c by (simp add: list_sort_def)
  have "filter (\<lambda>x. num (f x) = k) (list_sort f xs) = filter (\<lambda>x. num (f x) = k) xs" for k
  proof -
    have "filter (\<lambda>x. num (f x) = k) (list_sort f xs)
          = filter (\<lambda>x. num (f x) = k) ?run @ filter (\<lambda>x. num (f x) = k) (drop n xs)"
      unfolding ls bf by (rule filter_append)
    also have "\<dots> = filter (\<lambda>x. num (f x) = k) (take n xs)
                      @ filter (\<lambda>x. num (f x) = k) (drop n xs)"
      by (simp only: rf)
    also have "\<dots> = filter (\<lambda>x. num (f x) = k) xs"
      by (metis append_take_drop_id filter_append)
    finally show ?thesis .
  qed
  with bs ls show ?thesis by simp
qed

section \<open>Sorting in descending order and slicing\<close>

lemma length_sorted_reverse: "length (sorted_reverse f xs) = length xs"
  unfolding sorted_reverse_def by (simp add: length_list_sort)

lemma set_sorted_reverse: "set (sorted_reverse f xs) = set xs"
  unfolding sorted_reverse_def by (simp add: set_list_sort)

lemma sorted_reverse_sorted:
  assumes "\<forall>x \<in> set xs. f x \<noteq> NaN"
  shows "sorted_wrt (\<lambda>a b. py_ge (f a) (f b)) (sorted_reverse f xs)"
proof -
  from assms have "\<forall>x \<in> set (rev xs). f x \<noteq> NaN" by simp
  from list_sort_correct [OF this] have "sorted (map (num \<circ> f) (list_sort f (rev xs)))"
    by blast
  then have "sorted_wrt (\<lambda>a b. num (f a) \<le> num (f b)) (list_sort f (rev xs))"
    by (simp add: sorted_map comp_def)
  then have "sorted_wrt (\<lambda>a b. num (f b) \<le> num (f a)) (sorted_reverse f xs)"
    unfolding sorted_reverse_def by (simp add: sorted_wrt_rev)
  moreover have "py_ge (f a) (f b)"
    if "a \<in> set (sorted_reverse f xs)" "b \<in> set (sorted_reverse f xs)"
       "num (f b) \<le> num (f a)" for a b
    using that assms by (simp add: set_sorted_reverse py_ge_num)
  ultimately show ?thesis by (rule sorted_wrt_mono_rel [rotated])
qed

lemma sorted_reverse_stable:
  assumes "\<forall>x \<in> set xs. f x \<noteq> NaN"
  shows "filter (\<lambda>x. f x = s) (sorted_reverse f xs) = filter (\<lambda>x. f x = s) xs"
proof (cases s)
  case NaN
  with assms show ?thesis
    by (simp add: filter_empty_conv set_sorted_reverse)
next
  case (Num k)
  have key: "filter (\<lambda>x. f x = Num k) ys = filter (\<lambda>x. num (f x) = k) ys"
    if "\<forall>x \<in> set ys. f x \<noteq> NaN" for ys
  proof (rule filter_cong [OF refl])
    fix x assume "x \<in> set ys"
    with that have "f x \<noteq> NaN" by simp
    then show "(f x = Num k) = (num (f x) = k)" by (cases "f x") simp_all
  qed
  from assms have r: "\<forall>x \<in> set (rev xs). f x \<noteq> NaN" by simp
  from list_sort_correct [OF r] have
    "filter (\<lambda>x. num (f x) = k) (list_sort f (rev xs)) = filter (\<lambda>x. num (f x) = k) (rev xs)"
    by blast
  then have "filter (\<lambda>x. num (f x) = k) (sorted_reverse f xs) = filter (\<lambda>x. num (f x) = k) xs"
    unfolding sorted_reverse_def by (simp add: rev_filter [symmetric])
  moreover from assms have "\<forall>x \<in> set (sorted_reverse f xs). f x \<noteq> NaN"
    by (simp add: set_sorted_reverse)
  ultimately show ?thesis using key assms Num by simp
qed

lemma prefix_filter_take: "prefix (filter P (take n xs)) (filter P xs)"
proof -
  have "prefix (take n xs) xs" by (rule take_is_prefix)
  then show ?thesis by (rule filter_mono_prefix)
qed

lemma ranked_take:
  "ranked bu crs (max 1 (min k 15)) =
     take (nat (max 1 (min k 15))) (sorted_reverse score (docs_with_score bu crs))"
  by (simp add: ranked_def slice_to_def)

section \<open>The loop over the stores\<close>

text \<open>
  When the loop ends without an exception it has appended one coroutine per store, in
  the order of the dict, each with the request's query and \<open>top_k\<close>.
\<close>

lemma issue_calls_Inr:
  "issue_calls colls stores req acc bu = Inr (crs, bu') \<Longrightarrow>
   crs = acc @ map (\<lambda>(channel_id, docs_store).
                      \<lparr>co_channel = channel_id, co_store = docs_store,
                        co_query = query req, co_k = top_k req\<rparr>) stores"
proof (induction stores arbitrary: acc bu)
  case Nil
  then show ?case by simp
next
  case (Cons p rest)
  obtain channel_id docs_store where p: "p = (channel_id, docs_store)" by (cases p)
  from Cons.prems p obtain ci :: collection where
    "issue_calls colls rest req
       (acc @ [\<lparr>co_channel = channel_id, co_store = docs_store,
                co_query = query req, co_k = top_k req\<rparr>]) (coll_base_url ci) = Inr (crs, bu')"
    by (auto split: option.splits)
  from Cons.IH [OF this] show ?case by (simp add: p)
qed

text \<open>After the loop, \<^verbatim>\<open>base_url\<close> holds the base URL of the collection visited last.\<close>

lemma issue_calls_base_url:
  "issue_calls colls stores req acc bu = Inr (crs, bu') \<Longrightarrow> stores \<noteq> [] \<Longrightarrow>
   \<exists>ci. collection_info_dict colls (fst (last stores)) = Some ci \<and> bu' = coll_base_url ci"
proof (induction stores arbitrary: acc bu)
  case Nil
  then show ?case by simp
next
  case (Cons p rest)
  obtain channel_id docs_store where p: "p = (channel_id, docs_store)" by (cases p)
  from Cons.prems(1) p obtain ci :: collection where
    ci: "collection_info_dict colls channel_id = Some ci" and
    rec: "issue_calls colls rest req
       (acc @ [\<lparr>co_channel = channel_id, co_store = docs_store,
                co_query = query req, co_k = top_k req\<rparr>]) (coll_base_url ci) = Inr (crs, bu')"
    by (auto split: option.splits)
  show ?case
  proof (cases "rest = []")
    case True
    with rec ci p show ?thesis by simp
  next
    case False
    from Cons.IH [OF rec False] False show ?thesis by simp
  qed
qed

text \<open>The loop raises only \<^verbatim>\<open>KeyError\<close>, for a store whose id the manifest does not have.\<close>

lemma issue_calls_Inl:
  "issue_calls colls stores req acc bu = Inl e \<Longrightarrow>
   \<exists>p \<in> set stores. e = KeyError (fst p) \<and> collection_info_dict colls (fst p) = None"
proof (induction stores arbitrary: acc bu)
  case Nil
  then show ?case by simp
next
  case (Cons p rest)
  obtain channel_id docs_store where p: "p = (channel_id, docs_store)" by (cases p)
  show ?case
  proof (cases "collection_info_dict colls channel_id")
    case None
    with Cons.prems p show ?thesis by simp
  next
    case (Some ci)
    with Cons.prems p have
      "issue_calls colls rest req
       (acc @ [\<lparr>co_channel = channel_id, co_store = docs_store,
                co_query = query req, co_k = top_k req\<rparr>]) (coll_base_url ci) = Inl e"
      by simp
    from Cons.IH [OF this] show ?thesis by auto
  qed
qed

lemma issue_calls_registered:
  assumes "\<forall>p \<in> set stores. collection_info_dict colls (fst p) \<noteq> None"
  shows "\<exists>crs bu'. issue_calls colls stores req acc bu = Inr (crs, bu')"
proof (cases "issue_calls colls stores req acc bu")
  case (Inl e)
  from issue_calls_Inl [OF this] assms show ?thesis by blast
next
  case (Inr r)
  then show ?thesis by (cases r) simp
qed

section \<open>Awaiting the searches\<close>

lemma first_raised_None_iff: "first_raised rs = None \<longleftrightarrow> (\<forall>r \<in> set rs. \<not> isl r)"
  by (induction rs rule: first_raised.induct) auto

lemma first_raised_Some: "first_raised rs = Some e \<Longrightarrow> Inl e \<in> set rs"
  by (induction rs rule: first_raised.induct) auto

lemma returned_all: "\<forall>r \<in> set rs. \<not> isl r \<Longrightarrow> map Inr (returned rs) = rs"
  by (induction rs rule: returned.induct) auto

text \<open>
  \<open>gather\<close> returns exactly when no call raised, and then the results in the order of the
  calls, whatever the order in which they finished.
\<close>

lemma gather_Inr_iff:
  "gather order rs = Inr vs \<longleftrightarrow> (\<forall>r \<in> set rs. \<not> isl r) \<and> vs = returned rs"
proof -
  let ?picked = "map (\<lambda>i. rs ! i) (filter (\<lambda>i. i < length rs) order)"
  have sub: "set ?picked \<subseteq> set rs" by auto
  have "first_raised (?picked @ rs) = None \<longleftrightarrow> (\<forall>r \<in> set rs. \<not> isl r)"
    using sub by (auto simp: first_raised_None_iff)
  then show ?thesis
    unfolding gather_def by (auto split: option.splits)
qed

lemma gather_Inl:
  assumes "gather order rs = Inl e"
  shows "Inl e \<in> set rs"
proof -
  let ?picked = "map (\<lambda>i. rs ! i) (filter (\<lambda>i. i < length rs) order)"
  from assms have "first_raised (?picked @ rs) = Some e"
    unfolding gather_def by (auto split: option.splits)
  from first_raised_Some [OF this] show ?thesis by auto
qed

lemma gather_raises:
  assumes "Inl e \<in> set rs"
  shows "\<exists>e'. gather order rs = Inl e' \<and> Inl e' \<in> set rs"
proof (cases "gather order rs")
  case (Inl e')
  with gather_Inl [OF Inl] show ?thesis by simp
next
  case (Inr vs)
  with assms show ?thesis by (auto simp: gather_Inr_iff)
qed

lemma gather_order_irrelevant:
  "gather o1 rs = Inr vs \<Longrightarrow> gather o2 rs = Inr vs"
  by (simp add: gather_Inr_iff)

section \<open>What a call of the search does\<close>

lemma await_issued:
  "map await_call (map (\<lambda>(channel_id, docs_store).
                      \<lparr>co_channel = channel_id, co_store = docs_store,
                        co_query = q, co_k = k\<rparr>) stores)
   = map (\<lambda>p. snd p q k) stores"
  by (simp add: await_call_def split_def)

lemma calls_issued:
  "map call_of (map (\<lambda>(channel_id, docs_store).
                      \<lparr>co_channel = channel_id, co_store = docs_store,
                        co_query = q, co_k = k\<rparr>) stores)
   = map (\<lambda>p. \<lparr>call_channel = fst p, call_query = q, call_k = k\<rparr>) stores"
  by (simp add: call_of_def split_def)

lemma run_extension_req_after:
  "req_after (run_extension colls stores order req) = req\<lparr>top_k := max 1 (min (top_k req) 15)\<rparr>"
  unfolding run_extension_def Let_def
  by (simp split: sum.splits prod.splits)

lemma run_extension_searched:
  assumes "c \<in> set (searched (run_extension colls stores order req))"
  shows "call_k c = max 1 (min (top_k req) 15) \<and> call_query c = query req
         \<and> call_channel c \<in> fst ` set stores"
proof (cases "issue_calls colls stores (req\<lparr>top_k := max 1 (min (top_k req) 15)\<rparr>) [] None")
  case (Inl e)
  with assms show ?thesis by (simp add: run_extension_def)
next
  case (Inr r)
  obtain crs bu where r: "r = (crs, bu)" by (cases r)
  from issue_calls_Inr [OF Inr [unfolded r]] have
    "crs = map (\<lambda>(channel_id, docs_store).
                      \<lparr>co_channel = channel_id, co_store = docs_store,
                        co_query = query req, co_k = max 1 (min (top_k req) 15)\<rparr>) stores"
    by simp
  then have
    crs: "map call_of crs = map (\<lambda>p. \<lparr>call_channel = fst p, call_query = query req,
                                     call_k = max 1 (min (top_k req) 15)\<rparr>) stores"
    by (simp only: calls_issued)
  have "searched (run_extension colls stores order req) = map call_of crs"
    using Inr r unfolding run_extension_def Let_def by (simp split: sum.splits)
  with assms crs show ?thesis by force
qed

text \<open>
  With every store's id in the manifest, the loop raises nothing and the call is the
  \<open>gather\<close> of one search per store followed by the ranking.
\<close>

lemma run_extension_registered:
  assumes "\<forall>p \<in> set stores. collection_info_dict colls (fst p) \<noteq> None"
  shows "\<exists>bu. run_extension colls stores order req =
     (let k = max 1 (min (top_k req) 15);
          calls = map (\<lambda>p. \<lparr>call_channel = fst p, call_query = query req, call_k = k\<rparr>) stores
      in case gather order (map (\<lambda>p. snd p (query req) k) stores) of
           Inl e \<Rightarrow> \<lparr>req_after = req\<lparr>top_k := k\<rparr>, searched = calls, outcome = Inl e\<rparr>
         | Inr results \<Rightarrow>
             \<lparr>req_after = req\<lparr>top_k := k\<rparr>, searched = calls,
               outcome = rank_and_report bu results k\<rparr>)"
proof -
  let ?req = "req\<lparr>top_k := max 1 (min (top_k req) 15)\<rparr>"
  from issue_calls_registered [OF assms] obtain crs bu where
    ic: "issue_calls colls stores ?req [] None = Inr (crs, bu)" by blast
  from issue_calls_Inr [OF ic] have
    crs: "crs = map (\<lambda>(channel_id, docs_store).
                      \<lparr>co_channel = channel_id, co_store = docs_store,
                        co_query = query req, co_k = max 1 (min (top_k req) 15)\<rparr>) stores"
    by simp
  have a: "map await_call crs = map (\<lambda>p. snd p (query req) (max 1 (min (top_k req) 15))) stores"
    unfolding crs by (rule await_issued)
  have c: "map call_of crs = map (\<lambda>p. \<lparr>call_channel = fst p, call_query = query req,
                                     call_k = max 1 (min (top_k req) 15)\<rparr>) stores"
    unfolding crs by (rule calls_issued)
  show ?thesis
    unfolding run_extension_def Let_def ic
    by (rule exI [of _ bu]) (simp add: a c split: sum.splits)
qed

lemma one_search_per_collection:
  assumes "\<forall>p \<in> set stores. collection_info_dict colls (fst p) \<noteq> None"
  shows "map call_channel (searched (run_extension colls stores order req)) = map fst stores"
proof -
  from run_extension_registered [OF assms] obtain bu where
    "run_extension colls stores order req =
     (let k = max 1 (min (top_k req) 15);
          calls = map (\<lambda>p. \<lparr>call_channel = fst p, call_query = query req, call_k = k\<rparr>) stores
      in case gather order (map (\<lambda>p. snd p (query req) k) stores) of
           Inl e \<Rightarrow> \<lparr>req_after = req\<lparr>top_k := k\<rparr>, searched = calls, outcome = Inl e\<rparr>
         | Inr results \<Rightarrow>
             \<lparr>req_after = req\<lparr>top_k := k\<rparr>, searched = calls,
               outcome = rank_and_report bu results k\<rparr>)" ..
  then show ?thesis by (simp add: Let_def comp_def split: sum.splits)
qed

lemma issue_calls_Inr_registered:
  "issue_calls colls stores req acc bu = Inr r \<Longrightarrow>
   \<forall>p \<in> set stores. collection_info_dict colls (fst p) \<noteq> None"
proof (induction stores arbitrary: acc bu)
  case Nil
  then show ?case by simp
next
  case (Cons p rest)
  obtain channel_id docs_store where p: "p = (channel_id, docs_store)" by (cases p)
  show ?case
  proof (cases "collection_info_dict colls channel_id")
    case None
    with Cons.prems p show ?thesis by simp
  next
    case (Some ci)
    with Cons.prems p have
      "issue_calls colls rest req
       (acc @ [\<lparr>co_channel = channel_id, co_store = docs_store,
                co_query = query req, co_k = top_k req\<rparr>]) (coll_base_url ci) = Inr r"
      by simp
    from Cons.IH [OF this] Some p show ?thesis by simp
  qed
qed

lemma run_extension_unregistered:
  assumes "p \<in> set stores" and "collection_info_dict colls (fst p) = None"
  shows "\<exists>cid. outcome (run_extension colls stores order req) = Inl (KeyError cid)
         \<and> searched (run_extension colls stores order req) = []"
proof (cases "issue_calls colls stores (req\<lparr>top_k := max 1 (min (top_k req) 15)\<rparr>) [] None")
  case (Inl e)
  from issue_calls_Inl [OF Inl] obtain cid where "e = KeyError cid" by blast
  with Inl show ?thesis by (simp add: run_extension_def)
next
  case (Inr r)
  from issue_calls_Inr_registered [OF Inr] assms show ?thesis by blast
qed

lemma run_extension_clamped_request:
  "run_extension colls stores order (req\<lparr>top_k := max 1 (min (top_k req) 15)\<rparr>)
   = run_extension colls stores order req"
  unfolding run_extension_def by simp

lemma run_extension_order_irrelevant:
  assumes "outcome (run_extension colls stores o1 req) = Inr out"
  shows "run_extension colls stores o2 req = run_extension colls stores o1 req"
proof (cases "issue_calls colls stores (req\<lparr>top_k := max 1 (min (top_k req) 15)\<rparr>) [] None")
  case (Inl e)
  then show ?thesis by (simp add: run_extension_def)
next
  case (Inr r)
  obtain crs bu where r: "r = (crs, bu)" by (cases r)
  show ?thesis
  proof (cases "gather o1 (map await_call crs)")
    case (Inl e)
    with Inr r assms show ?thesis by (simp add: run_extension_def)
  next
    case g1: (Inr vs)
    from gather_order_irrelevant [OF g1] have "gather o2 (map await_call crs) = Inr vs" .
    with g1 Inr r show ?thesis by (simp add: run_extension_def)
  qed
qed

lemma docs_with_score_base_url:
  "d \<in> set (docs_with_score bu crs) \<Longrightarrow> base_url d = bu"
  unfolding docs_with_score_def by auto

lemma set_ranked: "set (ranked bu crs k) \<subseteq> set (docs_with_score bu crs)"
proof -
  have "set (slice_to k xs) \<subseteq> set xs" for xs :: "'a DocWithScore list"
    unfolding slice_to_def by (auto dest: in_set_takeD)
  then show ?thesis
    unfolding ranked_def by (metis set_sorted_reverse)
qed

lemma report_short: "0 < length ds \<Longrightarrow> length ds < 3 \<Longrightarrow> report ds = Inl IndexError"
  unfolding report_def getitem_def by (cases ds rule: list.exhaust) (auto split: sum.splits)

lemma report_long: "3 \<le> length ds \<Longrightarrow> report ds = Inr ()"
  unfolding report_def getitem_def by auto

text \<open>
  The report raises exactly on the rankings of one or two entries; otherwise the ranking
  is returned as it is.
\<close>

lemma rank_and_report_cases:
  "rank_and_report bu crs k =
     (if length (ranked bu crs k) = 1 \<or> length (ranked bu crs k) = 2
      then Inl IndexError else Inr (ranked bu crs k))"
proof -
  let ?ds = "ranked bu crs k"
  consider "length ?ds = 0" | "0 < length ?ds" "length ?ds < 3" | "3 \<le> length ?ds"
    by linarith
  then show ?thesis
  proof cases
    case 1
    then show ?thesis by (simp add: rank_and_report_def)
  next
    case 2
    then have "length ?ds = 1 \<or> length ?ds = 2" by arith
    with report_short [OF 2] 2 show ?thesis
      unfolding rank_and_report_def Let_def by simp
  next
    case 3
    then have "\<not> (length ?ds = 1 \<or> length ?ds = 2)" "0 < length ?ds" by arith+
    with report_long [OF 3] show ?thesis
      unfolding rank_and_report_def Let_def by simp
  qed
qed

lemma run_extension_Inr:
  assumes "outcome (run_extension colls stores order req) = Inr out"
  shows "\<exists>crs bu results.
           issue_calls colls stores (req\<lparr>top_k := max 1 (min (top_k req) 15)\<rparr>) [] None
             = Inr (crs, bu)
           \<and> gather order (map await_call crs) = Inr results
           \<and> out = ranked bu results (max 1 (min (top_k req) 15))
           \<and> length out \<noteq> 1 \<and> length out \<noteq> 2"
proof (cases "issue_calls colls stores (req\<lparr>top_k := max 1 (min (top_k req) 15)\<rparr>) [] None")
  case (Inl e)
  with assms show ?thesis by (simp add: run_extension_def)
next
  case (Inr r)
  obtain crs bu where r: "r = (crs, bu)" by (cases r)
  show ?thesis
  proof (cases "gather order (map await_call crs)")
    case (Inl e)
    with Inr r assms show ?thesis by (simp add: run_extension_def)
  next
    case g: (Inr results)
    with Inr r assms have
      "rank_and_report bu results (max 1 (min (top_k req) 15)) = Inr out"
      by (simp add: run_extension_def)
    then have "out = ranked bu results (max 1 (min (top_k req) 15))
               \<and> length out \<noteq> 1 \<and> length out \<noteq> 2"
      by (auto simp: rank_and_report_cases split: if_splits)
    with Inr r g show ?thesis by blast
  qed
qed

text \<open>
  Every document that \<^verbatim>\<open>run_extension\<close> returns carries the base URL of the collection
  that stands last in \<^verbatim>\<open>docs_store_dict\<close>, whichever store it came from.
\<close>

lemma every_document_carries_last_base_url:
  assumes "outcome (run_extension colls stores order req) = Inr out" and "d \<in> set out"
  shows "\<exists>ci. collection_info_dict colls (fst (last stores)) = Some ci
              \<and> base_url d = coll_base_url ci"
proof -
  from run_extension_Inr [OF assms(1)] obtain crs bu results where
    ic: "issue_calls colls stores (req\<lparr>top_k := max 1 (min (top_k req) 15)\<rparr>) [] None
           = Inr (crs, bu)" and
    g: "gather order (map await_call crs) = Inr results" and
    out: "out = ranked bu results (max 1 (min (top_k req) 15))"
    by blast
  from assms(2) out set_ranked have "d \<in> set (docs_with_score bu results)" by blast
  then have bu: "base_url d = bu" by (rule docs_with_score_base_url)
  have "stores \<noteq> []"
  proof
    assume "stores = []"
    with ic have "crs = []" by simp
    with g have "results = []" by (simp add: gather_def)
    with out have "out = []" by (simp add: ranked_def docs_with_score_def slice_to_def sorted_reverse_def list_sort_def)
    with assms(2) show False by simp
  qed
  from issue_calls_base_url [OF ic this] bu show ?thesis by auto
qed

text \<open>The equations that evaluate a call on the concrete registry.\<close>

lemmas ex_defs = run_extension_def collection_info_dict_def coll_A_def coll_B_def
  store_A_def store_B_def store_one_def store_down_def store_nan_def store_low_def
  d1_def d2_def d3_def d4_def
  gather_def await_call_def call_of_def rank_and_report_def ranked_def docs_with_score_def
  sorted_reverse_def list_sort_def bisect.simps slice_to_def report_def getitem_def

section \<open>The ranking\<close>

lemma docs_with_score_nan_free:
  assumes "\<forall>rs \<in> set crs. \<forall>p \<in> set rs. snd p \<noteq> NaN"
  shows "\<forall>d \<in> set (docs_with_score bu crs). score d \<noteq> NaN"
  using assms unfolding docs_with_score_def by fastforce

text \<open>The ranking never has more entries than the limit, whatever the scores.\<close>

lemma length_ranked_le:
  "int (length (ranked bu crs (max 1 (min k 15)))) \<le> max 1 (min k 15)"
  unfolding ranked_take by simp

text \<open>
  Claim C2 says that for every collection of per-store result lists the ranking is in
  descending order of score. It is not when a score is NaN. Here one store returns
  \<open>d1\<close> with 0.2 and \<open>d2\<close> with NaN, another \<open>d3\<close> with 0.3 and \<open>d4\<close> with 0.1, and four
  documents are asked for: the sort finds the whole list to be one run (no element is
  less than the one before it) and leaves it as it is, so that 0.2 comes before 0.3.
\<close>

theorem ranked_nan_not_descending:
  "map score (ranked (coll_base_url coll_B)
                [[(d1, Num 0.2), (d2, NaN)], [(d3, Num 0.3), (d4, Num 0.1)]] (max 1 (min 4 15)))
     = [Num 0.2, NaN, Num 0.3, Num 0.1]
   \<and> \<not> successively (\<lambda>a b. py_ge (score a) (score b))
         (ranked (coll_base_url coll_B)
            [[(d1, Num 0.2), (d2, NaN)], [(d3, Num 0.3), (d4, Num 0.1)]] (max 1 (min 4 15)))"
  by (simp add: ex_defs)

text \<open>The call returns that list: it has four entries, so the report does not raise.\<close>

lemma nan_ranking_returned:
  "outcome (run_extension [coll_A, coll_B] [(''A'', store_nan), (''B'', store_low)] []
             \<lparr>query = ''q'', top_k = 4\<rparr>)
   = Inr [\<lparr>doc = ''d1'', score = Num 0.2, metadata = [(''source'', ''d1.md'')],
            base_url = Some ''https://b.example/docs''\<rparr>,
          \<lparr>doc = ''d2'', score = NaN, metadata = [(''source'', ''d2.md'')],
            base_url = Some ''https://b.example/docs''\<rparr>,
          \<lparr>doc = ''d3'', score = Num 0.3, metadata = [(''source'', ''d3.md'')],
            base_url = Some ''https://b.example/docs''\<rparr>,
          \<lparr>doc = ''d4'', score = Num 0.1, metadata = [(''source'', ''d4.md'')],
            base_url = Some ''https://b.example/docs''\<rparr>]"
  by (simp add: ex_defs)

text \<open>
  Claim C2, amended. Whatever lists the stores returned, provided no score in them is
  NaN, the ranking of line 70, cut at the clamped \<open>top_k\<close>, is in descending order of
  score (every earlier entry scores at least as much as every later one, adjacent ones
  in particular); among entries of equal score the order is the one in which they were
  collected (the entries of any one score, read off the ranking, are an initial part of
  the entries of that score read off the unsorted candidate list); and it has at most
  the clamped \<open>top_k\<close> entries.
\<close>

theorem ranked_sorted_stable_bounded:
  assumes "\<forall>rs \<in> set crs. \<forall>p \<in> set rs. snd p \<noteq> NaN"
  shows "sorted_wrt (\<lambda>a b. py_ge (score a) (score b)) (ranked bu crs (max 1 (min k 15)))
   \<and> successively (\<lambda>a b. py_ge (score a) (score b)) (ranked bu crs (max 1 (min k 15)))
   \<and> (\<forall>s. prefix (filter (\<lambda>d. score d = s) (ranked bu crs (max 1 (min k 15))))
                  (filter (\<lambda>d. score d = s) (docs_with_score bu crs)))
   \<and> int (length (ranked bu crs (max 1 (min k 15)))) \<le> max 1 (min k 15)"
proof -
  let ?k = "max 1 (min k 15)"
  let ?all = "sorted_reverse score (docs_with_score bu crs)"
  have r: "ranked bu crs ?k = take (nat ?k) ?all" by (rule ranked_take)
  note nn = docs_with_score_nan_free [OF assms, of bu]
  have desc: "sorted_wrt (\<lambda>a b. py_ge (score a) (score b)) (ranked bu crs ?k)"
    unfolding r by (rule sorted_wrt_take) (rule sorted_reverse_sorted [OF nn])
  then have adj: "successively (\<lambda>a b. py_ge (score a) (score b)) (ranked bu crs ?k)"
    by (rule successively_if_sorted_wrt)
  have stable: "prefix (filter (\<lambda>d. score d = s) (ranked bu crs ?k))
               (filter (\<lambda>d. score d = s) (docs_with_score bu crs))" for s
  proof -
    have "prefix (filter (\<lambda>d. score d = s) (take (nat ?k) ?all))
                 (filter (\<lambda>d. score d = s) ?all)"
      by (rule prefix_filter_take)
    then show ?thesis unfolding r by (simp only: sorted_reverse_stable [OF nn])
  qed
  from desc adj stable length_ranked_le [of bu crs k] show ?thesis by blast
qed

text \<open>
  The scenario of the specification, where no score is NaN: the ranking of the three
  candidates for \<open>top_k = 2\<close> is in descending order.
\<close>

theorem ranked_sorted_stable_bounded_witness:
  "successively (\<lambda>a b. py_ge (score a) (score b))
        (ranked (coll_base_url coll_B) [[(d1, Num 0.9), (d2, Num 0.5)], [(d3, Num 0.8)]]
           (max 1 (min 2 15)))
   \<and> int (length (ranked (coll_base_url coll_B)
                     [[(d1, Num 0.9), (d2, Num 0.5)], [(d3, Num 0.8)]] (max 1 (min 2 15))))
       \<le> max 1 (min 2 15)"
proof -
  have h: "\<forall>rs \<in> set [[(d1, Num 0.9), (d2, Num 0.5)], [(d3, Num 0.8)]].
             \<forall>p \<in> set rs. snd p \<noteq> NaN"
    by simp
  from ranked_sorted_stable_bounded [OF h, of "coll_base_url coll_B" 2]
  show ?thesis by blast
qed

text \<open>
  When there are no more candidates than the limit, the ranking keeps all of them.
\<close>

lemma few_candidates_all_ranked:
  "int (length (docs_with_score bu crs)) \<le> k \<Longrightarrow>
   ranked bu crs k = sorted_reverse score (docs_with_score bu crs)"
  by (simp add: ranked_def slice_to_def length_sorted_reverse)

section \<open>The clamp and the request\<close>

text \<open>
  Claim C3. Whatever integer the caller puts in \<open>top_k\<close>, the value
  \<open>max 1 (min top_k 15)\<close> lies between 1 and 15, and it is the \<open>k\<close> of every search that
  \<^verbatim>\<open>run_extension\<close> runs on a store: no store is ever asked for zero or a negative number
  of documents, nor for the caller's unclamped number.
\<close>

theorem clamped_top_k_forwarded:
  "1 \<le> max 1 (min (top_k req) 15) \<and> max 1 (min (top_k req) 15) \<le> 15
   \<and> (\<forall>c \<in> set (searched (run_extension colls stores order req)).
         call_k c = max 1 (min (top_k req) 15))"
  using run_extension_searched [of _ colls stores order req] by auto

text \<open>
  A request for \<open>- 3\<close> documents over the two collections: the store of B is searched
  with \<open>k = 1\<close>.
\<close>

theorem clamped_top_k_forwarded_witness:
  "\<lparr>call_channel = ''B'', call_query = ''cell segmentation'', call_k = 1\<rparr>
     \<in> set (searched (run_extension [coll_A, coll_B] [(''A'', store_A), (''B'', store_B)] []
                         \<lparr>query = ''cell segmentation'', top_k = - 3\<rparr>))
   \<and> call_k \<lparr>call_channel = ''B'', call_query = ''cell segmentation'', call_k = 1\<rparr>
       = max 1 (min (top_k \<lparr>query = ''cell segmentation'', top_k = - 3\<rparr>) 15)"
proof -
  have m: "\<lparr>call_channel = ''B'', call_query = ''cell segmentation'', call_k = 1\<rparr>
     \<in> set (searched (run_extension [coll_A, coll_B] [(''A'', store_A), (''B'', store_B)] []
                         \<lparr>query = ''cell segmentation'', top_k = - 3\<rparr>))"
    by (simp add: run_extension_def collection_info_dict_def coll_A_def coll_B_def
          store_A_def store_B_def gather_def await_call_def call_of_def)
  from clamped_top_k_forwarded [of "\<lparr>query = ''cell segmentation'', top_k = - 3\<rparr>"
         "[coll_A, coll_B]" "[(''A'', store_A), (''B'', store_B)]" "[]"] m
  show ?thesis by blast
qed

text \<open>
  Claim C9. \<^verbatim>\<open>run_extension\<close> writes to the request it was given: afterwards, whether the
  call returned or raised, the request's \<open>top_k\<close> is \<open>max 1 (min top_k 15)\<close> of the value
  the caller supplied, and its \<open>query\<close> is the one the caller supplied.
\<close>

theorem request_mutated_in_place:
  "top_k (req_after (run_extension colls stores order req)) = max 1 (min (top_k req) 15)
   \<and> query (req_after (run_extension colls stores order req)) = query req"
  by (simp add: run_extension_req_after)

section \<open>Failures of a store\<close>

text \<open>
  Claim C7. Take a registry in which every store's id is in the manifest (so that the
  searches do run), and let the search of one store raise. Then \<^verbatim>\<open>run_extension\<close> raises
  too, and what it raises is an exception that a store's search raised: no ranking is
  returned, whatever the other stores answered. When no store raises anything else,
  it is that very exception. Every store was searched exactly once: nothing is retried.
\<close>

theorem search_error_aborts:
  assumes "p \<in> set stores"
    and "snd p (query req) (max 1 (min (top_k req) 15)) = Inl e"
    and "\<forall>p \<in> set stores. collection_info_dict colls (fst p) \<noteq> None"
  shows "(\<exists>p' \<in> set stores. \<exists>e'.
            snd p' (query req) (max 1 (min (top_k req) 15)) = Inl e'
            \<and> outcome (run_extension colls stores order req) = Inl e')
         \<and> ((\<forall>p' \<in> set stores. \<forall>e'.
                snd p' (query req) (max 1 (min (top_k req) 15)) = Inl e' \<longrightarrow> e' = e)
              \<longrightarrow> outcome (run_extension colls stores order req) = Inl e)
         \<and> map call_channel (searched (run_extension colls stores order req)) = map fst stores"
proof -
  let ?k = "max 1 (min (top_k req) 15)"
  let ?rs = "map (\<lambda>p. snd p (query req) ?k) stores"
  from assms(1,2) have "Inl e \<in> set ?rs" by force
  from gather_raises [OF this] obtain e' where
    g: "gather order ?rs = Inl e'" and mem: "Inl e' \<in> set ?rs" by blast
  from run_extension_registered [OF assms(3), of order req] g
  have out: "outcome (run_extension colls stores order req) = Inl e'"
    by (auto simp: Let_def)
  from mem obtain p' where p': "p' \<in> set stores" "snd p' (query req) ?k = Inl e'"
    by auto
  from out p' have first: "\<exists>p' \<in> set stores. \<exists>e'.
            snd p' (query req) ?k = Inl e'
            \<and> outcome (run_extension colls stores order req) = Inl e'" by blast
  from out p' have second:
    "(\<forall>p' \<in> set stores. \<forall>e'. snd p' (query req) ?k = Inl e' \<longrightarrow> e' = e)
     \<longrightarrow> outcome (run_extension colls stores order req) = Inl e" by blast
  have third:
    "map call_channel (searched (run_extension colls stores order req)) = map fst stores"
    by (rule one_search_per_collection [OF assms(3)])
  from first second third show ?thesis by (intro conjI)
qed

text \<open>
  The store of B is down and finishes first: the request ends with B's exception, after
  one search on each store.
\<close>

theorem search_error_aborts_witness:
  "outcome (run_extension [coll_A, coll_B] [(''A'', store_A), (''B'', store_down)] [1, 0]
              \<lparr>query = ''q'', top_k = 3\<rparr>)
   = Inl (UpstreamSearchError ''connection refused'')
   \<and> map call_channel
        (searched (run_extension [coll_A, coll_B] [(''A'', store_A), (''B'', store_down)] [1, 0]
              \<lparr>query = ''q'', top_k = 3\<rparr>)) = [''A'', ''B'']"
proof -
  have 1: "(''B'', store_down) \<in> set [(''A'', store_A), (''B'', store_down)]" by simp
  have 2: "snd (''B'', store_down) (query \<lparr>query = ''q'', top_k = 3\<rparr>)
             (max 1 (min (top_k \<lparr>query = ''q'', top_k = 3\<rparr>) 15))
           = Inl (UpstreamSearchError ''connection refused'')"
    by (simp add: store_down_def)
  have 3: "\<forall>p \<in> set [(''A'', store_A), (''B'', store_down)].
             collection_info_dict [coll_A, coll_B] (fst p) \<noteq> None"
    by (simp add: collection_info_dict_def coll_A_def coll_B_def)
  from search_error_aborts [OF 1 2 3, of "[1, 0]"]
  show ?thesis by (auto simp: store_A_def store_down_def)
qed

section \<open>Repeating a search\<close>

text \<open>
  Claim C8. With the registry fixed and the stores functions of their arguments, calling
  the search a second time on the request the first call was given (which the first call
  has written to) does exactly what the first call did, when the stores finish in the
  same order. A search that returned a ranking returns the same ranking, in the same
  order, when it is repeated with an equal request or with that very request object, in
  whatever order the stores finish the second time.
\<close>

theorem search_repeatable:
  "run_extension colls stores o1 (req_after (run_extension colls stores o1 req))
     = run_extension colls stores o1 req
   \<and> (outcome (run_extension colls stores o1 req) = Inr out \<longrightarrow>
        outcome (run_extension colls stores o2 req) = Inr out
        \<and> outcome (run_extension colls stores o2
                     (req_after (run_extension colls stores o1 req))) = Inr out)"
proof (intro conjI impI)
  show "run_extension colls stores o1 (req_after (run_extension colls stores o1 req))
          = run_extension colls stores o1 req"
    by (simp add: run_extension_req_after run_extension_clamped_request)
next
  assume ret: "outcome (run_extension colls stores o1 req) = Inr out"
  then have same: "run_extension colls stores o2 req = run_extension colls stores o1 req"
    by (rule run_extension_order_irrelevant)
  with ret show "outcome (run_extension colls stores o2 req) = Inr out"
    by simp
  from same ret
  show "outcome (run_extension colls stores o2
                   (req_after (run_extension colls stores o1 req))) = Inr out"
    by (simp add: run_extension_req_after run_extension_clamped_request)
qed

text \<open>
  A request for 100 documents over the two collections, searched once with the stores
  finishing in the order they were called and once more with B finishing first.
\<close>

theorem search_repeatable_witness:
  "outcome (run_extension [coll_A, coll_B] [(''A'', store_A), (''B'', store_B)] []
             \<lparr>query = ''q'', top_k = 100\<rparr>)
   = Inr [\<lparr>doc = ''d1'', score = Num 0.9, metadata = [(''source'', ''d1.md'')],
            base_url = Some ''https://b.example/docs''\<rparr>,
          \<lparr>doc = ''d3'', score = Num 0.8, metadata = [(''source'', ''d3.md'')],
            base_url = Some ''https://b.example/docs''\<rparr>,
          \<lparr>doc = ''d2'', score = Num 0.5, metadata = [(''source'', ''d2.md'')],
            base_url = Some ''https://b.example/docs''\<rparr>]
   \<and> outcome (run_extension [coll_A, coll_B] [(''A'', store_A), (''B'', store_B)] [1, 0]
       (req_after (run_extension [coll_A, coll_B] [(''A'', store_A), (''B'', store_B)] []
             \<lparr>query = ''q'', top_k = 100\<rparr>)))
   = Inr [\<lparr>doc = ''d1'', score = Num 0.9, metadata = [(''source'', ''d1.md'')],
            base_url = Some ''https://b.example/docs''\<rparr>,
          \<lparr>doc = ''d3'', score = Num 0.8, metadata = [(''source'', ''d3.md'')],
            base_url = Some ''https://b.example/docs''\<rparr>,
          \<lparr>doc = ''d2'', score = Num 0.5, metadata = [(''source'', ''d2.md'')],
            base_url = Some ''https://b.example/docs''\<rparr>]"
proof -
  have first: "outcome (run_extension [coll_A, coll_B] [(''A'', store_A), (''B'', store_B)] []
             \<lparr>query = ''q'', top_k = 100\<rparr>)
   = Inr [\<lparr>doc = ''d1'', score = Num 0.9, metadata = [(''source'', ''d1.md'')],
            base_url = Some ''https://b.example/docs''\<rparr>,
          \<lparr>doc = ''d3'', score = Num 0.8, metadata = [(''source'', ''d3.md'')],
            base_url = Some ''https://b.example/docs''\<rparr>,
          \<lparr>doc = ''d2'', score = Num 0.5, metadata = [(''source'', ''d2.md'')],
            base_url = Some ''https://b.example/docs''\<rparr>]"
    by (simp add: ex_defs)
  from search_repeatable [of "[coll_A, coll_B]" "[(''A'', store_A), (''B'', store_B)]" "[]"
         "\<lparr>query = ''q'', top_k = 100\<rparr>" _ "[1, 0]"] first
  show ?thesis by blast
qed

section \<open>Where the code leaves the specification\<close>

text \<open>
  Claim C1 asks that every document of the result carries the base URL of the collection
  it came from. The comprehension reads the loop's variable \<^verbatim>\<open>base_url\<close> after the loop
  has ended, so every document carries the base URL of the collection visited last. Here
  the collections A and B are searched for three documents: \<open>d1\<close> and \<open>d2\<close> come from
  A, whose base URL is \<^verbatim>\<open>https://a.example/docs\<close>, and are returned with the one of B.
\<close>

theorem provenance_mixed_up:
  "outcome (run_extension [coll_A, coll_B] [(''A'', store_A), (''B'', store_B)] []
             \<lparr>query = ''q'', top_k = 3\<rparr>)
   = Inr [\<lparr>doc = ''d1'', score = Num 0.9, metadata = [(''source'', ''d1.md'')],
            base_url = Some ''https://b.example/docs''\<rparr>,
          \<lparr>doc = ''d3'', score = Num 0.8, metadata = [(''source'', ''d3.md'')],
            base_url = Some ''https://b.example/docs''\<rparr>,
          \<lparr>doc = ''d2'', score = Num 0.5, metadata = [(''source'', ''d2.md'')],
            base_url = Some ''https://b.example/docs''\<rparr>]"
  by (simp add: ex_defs)

text \<open>
  Claim C5 asks that fewer candidates than \<open>top_k\<close> are all returned, without an error.
  The report printed before the return reads the entries 0, 1 and 2 of any ranking that
  is not empty. Here the only collection has one document and five are asked for: the
  call raises \<^verbatim>\<open>IndexError\<close>.
\<close>

theorem single_candidate_raises:
  "outcome (run_extension [coll_A] [(''A'', store_one)] [] \<lparr>query = ''q'', top_k = 5\<rparr>)
   = Inl IndexError"
  by (simp add: ex_defs)

text \<open>The case of the specification with no candidate at all does return the empty list.\<close>

lemma empty_result_returned:
  "outcome (run_extension [coll_A] [(''A'', \<lambda>q k. Inr [])] [] \<lparr>query = ''q'', top_k = 5\<rparr>)
   = Inr []"
  by (simp add: ex_defs)

text \<open>
  Claim C6 is the scenario of the specification: A returns \<open>d1\<close> with 0.9 and \<open>d2\<close> with
  0.5, B returns \<open>d3\<close> with 0.8, and \<open>top_k\<close> is 2; the result should be \<open>d1\<close> with A's
  base URL, then \<open>d3\<close> with B's. The ranking has two entries, the report reads a third,
  and the call raises \<^verbatim>\<open>IndexError\<close>.
\<close>

theorem scenario_raises:
  "outcome (run_extension [coll_A, coll_B] [(''A'', store_A), (''B'', store_B)] []
             \<lparr>query = ''q'', top_k = 2\<rparr>)
   = Inl IndexError"
  by (simp add: ex_defs)

text \<open>
  The ranking that line 70 had built before the report raised: the documents and their
  order are the expected ones, and \<open>d1\<close> carries the base URL of B.
\<close>

lemma scenario_ranking:
  "ranked (coll_base_url coll_B) [[(d1, Num 0.9), (d2, Num 0.5)], [(d3, Num 0.8)]] 2
   = [\<lparr>doc = ''d1'', score = Num 0.9, metadata = [(''source'', ''d1.md'')],
        base_url = Some ''https://b.example/docs''\<rparr>,
      \<lparr>doc = ''d3'', score = Num 0.8, metadata = [(''source'', ''d3.md'')],
        base_url = Some ''https://b.example/docs''\<rparr>]"
  by (simp add: ex_defs)

section \<open>The advertised schema\<close>

text \<open>
  Every call writes the docstring anew: the fixed sentence, then one line
  \<^verbatim>\<open>- name: description\<close> per channel of that call.
\<close>

lemma get_schema_docstring:
  "docstring (fst (get_schema model_schema channels cls))
   = doc_header @ join [CHR 0x0A] (map channel_line channels)"
  by (simp add: get_schema_def schema_def channel_info_def Let_def split: option.splits)

text \<open>
  The first call on a class without a schema generates the schema from the docstring it
  has just written, and keeps it.
\<close>

lemma get_schema_generates:
  assumes "schema_cache cls = None"
  shows "get_schema model_schema channels cls
         = (\<lparr>docstring = doc_header @ channel_info channels,
              schema_cache = Some (model_schema (doc_header @ channel_info channels))\<rparr>,
            model_schema (doc_header @ channel_info channels))"
  using assms by (simp add: get_schema_def schema_def Let_def)

text \<open>
  Once a schema is kept, every call returns it, whatever its own channels are, and only
  the docstring changes.
\<close>

lemma get_schema_cached:
  assumes "schema_cache cls = Some s"
  shows "get_schema model_schema channels cls
         = (\<lparr>docstring = doc_header @ channel_info channels, schema_cache = Some s\<rparr>, s)"
  using assms by (simp add: get_schema_def schema_def)

lemma later_call_returns_earlier_schema:
  "snd (get_schema model_schema later (fst (get_schema model_schema earlier cls)))
   = snd (get_schema model_schema earlier cls)"
  by (simp add: get_schema_def schema_def Let_def split: option.splits)


text \<open>The docstring after advertising the two collections in one call.\<close>

lemma docstring_of_two_collections:
  "docstring (fst (get_schema model_schema [coll_A, coll_B] cls))
   = ''Searching knowledge base for relevant documents. The available documentations are:''
     @ [CHR 0x0A] @ ''- Collection A: Documentation of A''
     @ [CHR 0x0A] @ ''- Collection B: Documentation of B''"
  by (simp add: get_schema_docstring doc_header_def channel_line_def coll_A_def coll_B_def)

end
